theory Spec2Isabelle
  imports Main "HOL-Library.Sublist"
begin

section \<open>Python string primitives used by the diff parser\<close>

text \<open>
  The parser of \<^verbatim>\<open>src/utils/diff_parser.py\<close> works on Python \<^verbatim>\<open>str\<close> values. A string is
  modelled as a \<^typ>\<open>string\<close>, each \<^typ>\<open>char\<close> standing for one code point below 256. On
  that range \<^verbatim>\<open>str.strip()\<close> and the regular expression class \<^verbatim>\<open>\s\<close> use the same
  whitespace test: TAB, LF, VT, FF, CR, the separators 0x1C to 0x1F, the space, NEL (0x85)
  and the no-break space (0xA0).
\<close>

definition whitespace_chars :: "char list" where
  "whitespace_chars =
     [CHR 0x09, CHR 0x0A, CHR 0x0B, CHR 0x0C, CHR 0x0D, CHR 0x1C, CHR 0x1D, CHR 0x1E,
      CHR 0x1F, CHR 0x20, CHR 0x85, CHR 0xA0]"

definition is_space :: "char \<Rightarrow> bool" where
  "is_space c = (c \<in> set whitespace_chars)"

abbreviation newline :: char where
  "newline \<equiv> CHR 0x0A"

text \<open>\<^verbatim>\<open>s.strip()\<close>: whitespace removed at both ends.\<close>

definition lstrip :: "string \<Rightarrow> string" where
  "lstrip s = dropWhile is_space s"

definition rstrip :: "string \<Rightarrow> string" where
  "rstrip s = rev (dropWhile is_space (rev s))"

definition strip :: "string \<Rightarrow> string" where
  "strip s = rstrip (lstrip s)"

text \<open>\<^verbatim>\<open>s.startswith(p)\<close>.\<close>

definition startswith :: "string \<Rightarrow> string \<Rightarrow> bool" where
  "startswith s p = (take (length p) s = p)"

text \<open>
  \<^verbatim>\<open>s.split('\n')\<close>: the pieces between the line feeds, always at least one piece. The
  empty-list branch of the \<open>case\<close> is never taken; it keeps the function total.
\<close>

fun split_newline :: "string \<Rightarrow> string list" where
  "split_newline [] = [[]]"
| "split_newline (c # cs) =
     (if c = newline then [] # split_newline cs
      else (case split_newline cs of
              [] \<Rightarrow> [[c]]
            | l # ls \<Rightarrow> (c # l) # ls))"

text \<open>
  The decimal text of an integer, as an f-string writes \<^verbatim>\<open>{n}\<close> for an \<^verbatim>\<open>int\<close>.
\<close>

definition digit_char :: "nat \<Rightarrow> char" where
  "digit_char d = ''0123456789'' ! d"

fun str_nat :: "nat \<Rightarrow> string" where
  "str_nat n = (if n < 10 then [digit_char n] else str_nat (n div 10) @ [digit_char (n mod 10)])"

declare str_nat.simps [simp del]

definition str_int :: "int \<Rightarrow> string" where
  "str_int i = (if i < 0 then CHR ''-'' # str_nat (nat (- i)) else str_nat (nat i))"

section \<open>The regular expressions\<close>

text \<open>
  \<^verbatim>\<open>re.split(r'\ndiff --git', diff_text)\<close>: the pattern is a literal, so the text is cut at
  every occurrence found scanning from the left, the search resuming after each occurrence.
  Where the text starts with the marker, \<open>c\<close> is its line feed and \<open>drop 10 cs\<close> is what
  follows its other ten characters.
\<close>

definition section_marker :: string where
  "section_marker = CHR 0x0A # ''diff --git''"

fun re_split_marker :: "string \<Rightarrow> string list" where
  "re_split_marker [] = [[]]"
| "re_split_marker (c # cs) =
     (if startswith (c # cs) section_marker then [] # re_split_marker (drop 10 cs)
      else (case re_split_marker cs of
              [] \<Rightarrow> [[c]]
            | p # ps \<Rightarrow> (c # p) # ps))"

text \<open>
  \<^verbatim>\<open>re.search(r'a/(.*?)\s+b/', file_diff)\<close>, giving \<^verbatim>\<open>match.group(1)\<close> when there is a
  match. \<open>match_space_b\<close> is the tail \<^verbatim>\<open>\s+b/\<close> of the pattern at the start of a string:
  the greedy \<^verbatim>\<open>\s+\<close> takes the whole run of whitespace, and giving characters back cannot
  help since the next one must be \<^verbatim>\<open>b\<close>. \<open>lazy_group\<close> is the lazy group \<^verbatim>\<open>(.*?)\<close>
  followed by that tail: the tail is tried first, and only when it fails one more character
  other than a line feed is taken into the group. \<open>re_search_a_b\<close> tries the start
  positions from the left; where the text starts with \<^verbatim>\<open>a/\<close>, \<open>drop 1 cs\<close> is what follows
  these two characters.
\<close>

definition match_space_b :: "string \<Rightarrow> bool" where
  "match_space_b s =
     (takeWhile is_space s \<noteq> [] \<and> startswith (dropWhile is_space s) ''b/'')"

fun lazy_group :: "string \<Rightarrow> string option" where
  "lazy_group [] = None"
| "lazy_group (c # cs) =
     (if match_space_b (c # cs) then Some []
      else if c = newline then None
      else map_option ((#) c) (lazy_group cs))"

fun re_search_a_b :: "string \<Rightarrow> string option" where
  "re_search_a_b [] = None"
| "re_search_a_b (c # cs) =
     (if startswith (c # cs) ''a/'' then
        (case lazy_group (drop 1 cs) of
           Some g \<Rightarrow> Some g
         | None \<Rightarrow> re_search_a_b cs)
      else re_search_a_b cs)"

text \<open>
  \<^verbatim>\<open>re.search(r'\+\+\+ b/(.*)', file_diff)\<close>, giving \<^verbatim>\<open>match.group(1)\<close>: the leftmost
  occurrence of \<^verbatim>\<open>+++ b/\<close>, the greedy group running up to the next line feed
  (\<open>drop 5 cs\<close> is what follows the six characters of \<^verbatim>\<open>+++ b/\<close>).
\<close>

fun re_search_plus_b :: "string \<Rightarrow> string option" where
  "re_search_plus_b [] = None"
| "re_search_plus_b (c # cs) =
     (if startswith (c # cs) ''+++ b/'' then Some (takeWhile (\<lambda>x. x \<noteq> newline) (drop 5 cs))
      else re_search_plus_b cs)"

section \<open>The parser\<close>

text \<open>\<^verbatim>\<open>DiffParser._extract_file_path\<close>.\<close>

definition extract_file_path :: "string \<Rightarrow> string" where
  "extract_file_path file_diff =
     (case re_search_a_b file_diff of
        Some g \<Rightarrow> g
      | None \<Rightarrow>
         (case re_search_plus_b file_diff of
            Some g \<Rightarrow> strip g
          | None \<Rightarrow> []))"

text \<open>
  \<^verbatim>\<open>DiffParser._extract_changes\<close>: the loop over the lines, with the two lists it appends to.
\<close>

fun extract_changes_loop :: "string list \<Rightarrow> string list \<Rightarrow> string list \<Rightarrow> string list \<times> string list" where
  "extract_changes_loop [] additions deletions = (additions, deletions)"
| "extract_changes_loop (line # lines) additions deletions =
     (if startswith line ''+++'' \<or> startswith line ''---'' then
        extract_changes_loop lines additions deletions
      else if startswith line ''@@'' then
        extract_changes_loop lines additions deletions
      else if startswith line ''+'' then
        extract_changes_loop lines (additions @ [strip (drop 1 line)]) deletions
      else if startswith line ''-'' then
        extract_changes_loop lines additions (deletions @ [strip (drop 1 line)])
      else extract_changes_loop lines additions deletions)"

definition extract_changes :: "string \<Rightarrow> string list \<times> string list" where
  "extract_changes file_diff = extract_changes_loop (split_newline file_diff) [] []"

text \<open>One entry of the list \<^verbatim>\<open>parse_diff\<close> returns (a Python dict with these six keys).\<close>

record FileChange =
  file_path :: string
  additions :: "string list"
  deletions :: "string list"
  addition_count :: int
  deletion_count :: int
  change_summary :: string

text \<open>
  \<^verbatim>\<open>DiffParser.parse_diff\<close>: the loop over the chunks, with the list \<^verbatim>\<open>parsed_files\<close> it
  appends to, and the early return on an empty or blank text. The locals \<^verbatim>\<open>file_path\<close>,
  \<^verbatim>\<open>additions\<close> and \<^verbatim>\<open>deletions\<close> are \<open>path\<close>, \<open>adds\<close> and \<open>dels\<close> here, the record's
  fields having taken their names.
\<close>

fun parse_diff_loop :: "string list \<Rightarrow> FileChange list \<Rightarrow> FileChange list" where
  "parse_diff_loop [] parsed_files = parsed_files"
| "parse_diff_loop (file_diff # file_diffs) parsed_files =
     (if strip file_diff = [] then parse_diff_loop file_diffs parsed_files
      else
        let path = extract_file_path file_diff in
        if path = [] then parse_diff_loop file_diffs parsed_files
        else
          let (adds, dels) = extract_changes file_diff in
          parse_diff_loop file_diffs
            (parsed_files @
             [\<lparr>file_path = path,
               additions = adds,
               deletions = dels,
               addition_count = int (length adds),
               deletion_count = int (length dels),
               change_summary =
                 ''+'' @ str_int (int (length adds)) @ '', -'' @
                 str_int (int (length dels))\<rparr>]))"

definition parse_diff :: "string \<Rightarrow> FileChange list" where
  "parse_diff diff_text =
     (if diff_text = [] \<or> strip diff_text = [] then []
      else parse_diff_loop (re_split_marker diff_text) [])"

text \<open>\<^verbatim>\<open>DiffParser.get_summary\<close>; \<^verbatim>\<open>sum\<close> adds from 0, left to right.\<close>

definition py_sum :: "int list \<Rightarrow> int" where
  "py_sum xs = foldl (+) 0 xs"

definition get_summary :: "string \<Rightarrow> string" where
  "get_summary diff_text =
     (let parsed = parse_diff diff_text in
      if parsed = [] then ''No changes detected''
      else
        let total_additions = py_sum (map addition_count parsed);
            total_deletions = py_sum (map deletion_count parsed);
            file_count = int (length parsed)
        in str_int file_count @ '' file(s) changed: '' @
           str_int total_additions @ '' addition(s), '' @
           str_int total_deletions @ '' deletion(s)'')"

text \<open>The sample diff of the module's self-test.\<close>

definition sample_diff :: string where
  "sample_diff =
     ''diff --git a/src/main.py b/src/main.py'' @ [newline] @
     ''index 1234567..abcdefg 100644'' @ [newline] @
     ''--- a/src/main.py'' @ [newline] @
     ''+++ b/src/main.py'' @ [newline] @
     ''@@ -1,3 +1,4 @@'' @ [newline] @
     '' def hello():'' @ [newline] @
     ''-    print(\"old\")'' @ [newline] @
     ''+    print(\"new\")'' @ [newline] @
     ''+    return True'' @ [newline]"

section \<open>Example inputs\<close>

text \<open>A section that changes a file mode only: a path and no body line.\<close>

definition mode_change_diff :: string where
  "mode_change_diff =
     ''diff --git a/run.sh b/run.sh'' @ [newline] @
     ''old mode 100644'' @ [newline] @
     ''new mode 100755'' @ [newline] @
     ''--- a/run.sh'' @ [newline] @
     ''+++ b/run.sh'' @ [newline]"

text \<open>A rename: the header names the old path on the \<^verbatim>\<open>a/\<close> side, the new one on the \<^verbatim>\<open>b/\<close> side.\<close>

definition rename_diff :: string where
  "rename_diff =
     ''diff --git a/old.py b/new.py'' @ [newline] @
     ''--- a/old.py'' @ [newline] @
     ''+++ b/new.py''"

text \<open>A section with no \<^verbatim>\<open>diff --git\<close> header line.\<close>

definition headerless_diff :: string where
  "headerless_diff =
     ''--- a/README.md'' @ [newline] @
     ''+++ b/README.md'' @ [newline] @
     ''+new text''"


text \<open>The two marker lines of a rename, with no header line before them.\<close>

definition marker_pair_diff :: string where
  "marker_pair_diff = ''--- a/old.py'' @ [newline] @ ''+++ b/new.py''"

section \<open>Notions of the specification\<close>

text \<open>
  The definitions of this section are not code of the parser: they state what the
  specification says, in its words, to be compared with the functions above.
\<close>

text \<open>\<open>join sep pieces\<close> is Python's \<^verbatim>\<open>sep.join(pieces)\<close>, used to say what a split is.\<close>

fun join :: "'a list \<Rightarrow> 'a list list \<Rightarrow> 'a list" where
  "join sep [] = []"
| "join sep [x] = x"
| "join sep (x # y # ys) = x @ sep @ join sep (y # ys)"

text \<open>
  The line classification of the specification: the class of one physical line, the rules
  taken in the stated priority order.
\<close>

datatype line_class = Addition string | Deletion string | Ignored

definition classify_line :: "string \<Rightarrow> line_class" where
  "classify_line line =
     (if prefix ''+++'' line \<or> prefix ''---'' line then Ignored
      else if prefix ''@@'' line then Ignored
      else if prefix ''+'' line then Addition (strip (tl line))
      else if prefix ''-'' line then Deletion (strip (tl line))
      else Ignored)"

fun additions_of :: "line_class list \<Rightarrow> string list" where
  "additions_of [] = []"
| "additions_of (Addition t # cs) = t # additions_of cs"
| "additions_of (c # cs) = additions_of cs"

fun deletions_of :: "line_class list \<Rightarrow> string list" where
  "deletions_of [] = []"
| "deletions_of (Deletion t # cs) = t # deletions_of cs"
| "deletions_of (c # cs) = deletions_of cs"

text \<open>
  The record the specification attaches to one file section: its extracted path, its two
  line sequences, their lengths and the derived summary.
\<close>

definition section_record :: "string \<Rightarrow> FileChange" where
  "section_record sec =
     \<lparr>file_path = extract_file_path sec,
      additions = fst (extract_changes sec),
      deletions = snd (extract_changes sec),
      addition_count = int (length (fst (extract_changes sec))),
      deletion_count = int (length (snd (extract_changes sec))),
      change_summary =
        ''+'' @ str_int (int (length (fst (extract_changes sec)))) @ '', -'' @
        str_int (int (length (snd (extract_changes sec))))\<rparr>"

text \<open>A section is emitted when a non-empty path is extracted from it.\<close>

definition emitted :: "string \<Rightarrow> bool" where
  "emitted sec = (extract_file_path sec \<noteq> [])"

text \<open>
  The second path rule as the specification words it: the first \<^emph>\<open>line beginning\<close> with
  \<^verbatim>\<open>+++ b/\<close>, what follows \<^verbatim>\<open>b/\<close> on that line, trimmed. \<open>spec_extract_file_path\<close> is
  the path-extraction policy with this second rule.
\<close>

definition spec_marker_line_path :: "string \<Rightarrow> string option" where
  "spec_marker_line_path sec =
     map_option (\<lambda>line. strip (drop 6 line))
       (find (\<lambda>line. prefix ''+++ b/'' line) (split_newline sec))"

definition spec_extract_file_path :: "string \<Rightarrow> string" where
  "spec_extract_file_path sec =
     (case re_search_a_b sec of
        Some g \<Rightarrow> g
      | None \<Rightarrow> (case spec_marker_line_path sec of Some g \<Rightarrow> g | None \<Rightarrow> []))"

text \<open>The number a string of decimal digits denotes, to say what \<open>str_nat\<close> writes.\<close>

definition digit_value :: "char \<Rightarrow> nat" where
  "digit_value c = of_char c - 48"

definition decimal_value :: "string \<Rightarrow> nat" where
  "decimal_value s = foldl (\<lambda>v c. 10 * v + digit_value c) 0 s"

section \<open>Facts about the string primitives\<close>

lemma startswith_prefix: "startswith s p = prefix p s"
proof
  assume "startswith s p"
  then have "s = p @ drop (length p) s"
    by (metis startswith_def append_take_drop_id)
  then show "prefix p s"
    by (metis prefixI)
next
  assume "prefix p s"
  then show "startswith s p"
    by (auto simp: startswith_def prefix_def)
qed

lemma startswith_append: "startswith s p \<longleftrightarrow> (\<exists>r. s = p @ r)"
  by (simp add: startswith_prefix prefix_def)

lemma strip_empty_iff: "strip s = [] \<longleftrightarrow> (\<forall>c\<in>set s. is_space c)"
proof
  assume "strip s = []"
  then have all: "\<forall>c\<in>set (dropWhile is_space s). is_space c"
    by (simp add: strip_def rstrip_def lstrip_def)
  have "dropWhile is_space s = []"
  proof (cases "dropWhile is_space s")
    case Nil
    then show ?thesis .
  next
    case (Cons x xs)
    then have "\<not> is_space x"
      using hd_dropWhile [of is_space s] by simp
    with all Cons show ?thesis by simp
  qed
  then show "\<forall>c\<in>set s. is_space c"
    by simp
next
  assume "\<forall>c\<in>set s. is_space c"
  then have d: "dropWhile is_space s = []"
    by simp
  show "strip s = []"
    unfolding strip_def rstrip_def lstrip_def d by simp
qed






lemma split_newline_no_newline: "l \<in> set (split_newline s) \<Longrightarrow> newline \<notin> set l"
  by (induction s arbitrary: l) (auto split: list.splits if_splits)


lemma digit_value_digit_char: "d < 10 \<Longrightarrow> digit_value (digit_char d) = d"
proof -
  assume "d < 10"
  then have "d \<in> {0, 1, 2, 3, 4, 5, 6, 7, 8, 9}"
    by auto
  then show ?thesis
    by (auto simp: digit_char_def digit_value_def)
qed

lemma decimal_value_snoc: "decimal_value (s @ [c]) = 10 * decimal_value s + digit_value c"
  by (simp add: decimal_value_def)

lemma decimal_value_str_nat: "decimal_value (str_nat n) = n"
proof (induction n rule: str_nat.induct)
  case (1 n)
  show ?case
  proof (cases "n < 10")
    case True
    then show ?thesis
      by (simp add: str_nat.simps [of n] decimal_value_def digit_value_digit_char)
  next
    case False
    with 1 have "decimal_value (str_nat (n div 10)) = n div 10"
      by simp
    with False show ?thesis
      by (simp add: str_nat.simps [of n] decimal_value_snoc digit_value_digit_char)
  qed
qed

section \<open>Facts about the two loops\<close>

lemma extract_changes_loop_eq:
  "extract_changes_loop ls as ds =
     (as @ additions_of (map classify_line ls), ds @ deletions_of (map classify_line ls))"
proof (induction ls arbitrary: as ds)
  case Nil
  show ?case by simp
next
  case (Cons l ls)
  have tl: "tl l = drop 1 l" by (simp add: drop_Suc)
  show ?case
    by (simp add: Cons classify_line_def startswith_prefix tl)
qed

lemma parse_diff_loop_eq:
  "parse_diff_loop secs acc =
     acc @ map section_record (filter (\<lambda>sec. strip sec \<noteq> [] \<and> emitted sec) secs)"
proof (induction secs arbitrary: acc)
  case Nil
  show ?case by simp
next
  case (Cons sec secs)
  show ?case
    by (simp add: Cons emitted_def section_record_def Let_def split: prod.splits)
qed

section \<open>Facts about the section split\<close>

lemma marker_split: "startswith (c # cs) section_marker \<Longrightarrow> c # cs = section_marker @ drop 10 cs"
proof -
  assume "startswith (c # cs) section_marker"
  then have "c # cs = section_marker @ drop (length section_marker) (c # cs)"
    by (metis startswith_def append_take_drop_id)
  moreover have "length section_marker = Suc 10"
    by (simp add: section_marker_def)
  ultimately show ?thesis by (simp only: drop_Suc_Cons)
qed

lemma re_split_marker_nonempty: "re_split_marker s \<noteq> []"
  by (induction s rule: re_split_marker.induct) (auto split: list.splits)

lemma join_Cons_Cons: "join sep ((c # p) # ps) = c # join sep (p # ps)"
  by (cases ps) auto

lemma join_Nil_Cons: "ps \<noteq> [] \<Longrightarrow> join sep ([] # ps) = sep @ join sep ps"
  by (cases ps) auto

lemma prefix_join: "prefix p (join sep (p # ps))"
  by (cases ps) auto

lemma join_re_split_marker: "join section_marker (re_split_marker s) = s"
proof (induction s rule: re_split_marker.induct)
  case 1
  show ?case by simp
next
  case (2 c cs)
  show ?case
  proof (cases "startswith (c # cs) section_marker")
    case True
    with 2 have ih: "join section_marker (re_split_marker (drop 10 cs)) = drop 10 cs" by simp
    have "re_split_marker (c # cs) = [] # re_split_marker (drop 10 cs)"
      using True by simp
    then have "join section_marker (re_split_marker (c # cs)) =
        section_marker @ join section_marker (re_split_marker (drop 10 cs))"
      by (simp add: join_Nil_Cons re_split_marker_nonempty)
    also have "\<dots> = section_marker @ drop 10 cs"
      by (simp only: ih)
    also have "\<dots> = c # cs"
      using marker_split [OF True] by simp
    finally show ?thesis .
  next
    case False
    with 2 have ih: "join section_marker (re_split_marker cs) = cs" by simp
    obtain p ps where ps: "re_split_marker cs = p # ps"
      using re_split_marker_nonempty [of cs] by (cases "re_split_marker cs") auto
    with False ih show ?thesis
      by (simp add: join_Cons_Cons)
  qed
qed

lemma re_split_marker_no_marker:
  "sec \<in> set (re_split_marker s) \<Longrightarrow> \<not> sublist section_marker sec"
proof (induction s arbitrary: sec rule: re_split_marker.induct)
  case 1
  then show ?case by (simp add: section_marker_def)
next
  case (2 c cs)
  show ?case
  proof (cases "startswith (c # cs) section_marker")
    case True
    with 2 show ?thesis by (auto simp: section_marker_def)
  next
    case False
    obtain p ps where ps: "re_split_marker cs = p # ps"
      using re_split_marker_nonempty [of cs] by (cases "re_split_marker cs") auto
    have "prefix p cs"
      using prefix_join [of p section_marker ps] join_re_split_marker [of cs] ps by simp
    then have np: "\<not> prefix section_marker (c # p)"
      using False by (metis startswith_prefix prefix_order.trans Cons_prefix_Cons)
    from 2(3) False ps have "sec = c # p \<or> sec \<in> set ps" by simp
    then show ?thesis
    proof
      assume "sec = c # p"
      moreover have "\<not> sublist section_marker p"
        using 2(2) [OF False, of p] ps by simp
      ultimately show ?thesis
        using np by (simp add: sublist_Cons_right)
    next
      assume "sec \<in> set ps"
      then show ?thesis using 2(2) [OF False, of sec] ps by simp
    qed
  qed
qed

lemma re_split_marker_set: "sec \<in> set (re_split_marker s) \<Longrightarrow> set sec \<subseteq> set s"
proof (induction s arbitrary: sec rule: re_split_marker.induct)
  case 1
  then show ?case by simp
next
  case (2 c cs)
  show ?case
  proof (cases "startswith (c # cs) section_marker")
    case True
    with 2(3) have "sec = [] \<or> sec \<in> set (re_split_marker (drop 10 cs))" by simp
    then show ?thesis
    proof
      assume "sec = []" then show ?thesis by simp
    next
      assume "sec \<in> set (re_split_marker (drop 10 cs))"
      then have "set sec \<subseteq> set (drop 10 cs)" using 2(1) [OF True] by simp
      then show ?thesis using set_drop_subset [of 10 cs] by auto
    qed
  next
    case False
    obtain p ps where ps: "re_split_marker cs = p # ps"
      using re_split_marker_nonempty [of cs] by (cases "re_split_marker cs") auto
    from 2(3) False ps have "sec = c # p \<or> sec \<in> set ps" by simp
    then show ?thesis
      using 2(2) [OF False, of p] 2(2) [OF False, of sec] ps by auto
  qed
qed

section \<open>Facts about the two path patterns\<close>

lemma not_space_simps [simp]:
  "\<not> is_space CHR ''b''" "\<not> is_space CHR ''a''" "\<not> is_space CHR ''+''" "\<not> is_space CHR ''d''"
  by (simp_all add: is_space_def whitespace_chars_def)

lemma is_space_newline [simp]: "is_space newline"
  by (simp add: is_space_def whitespace_chars_def)

lemma match_space_b_iff:
  "match_space_b s \<longleftrightarrow>
     (\<exists>ws rest. s = ws @ ''b/'' @ rest \<and> ws \<noteq> [] \<and> (\<forall>c\<in>set ws. is_space c))"
proof
  assume m: "match_space_b s"
  then obtain r where r: "dropWhile is_space s = ''b/'' @ r"
    by (auto simp: match_space_b_def startswith_append)
  have "s = takeWhile is_space s @ ''b/'' @ r"
    using takeWhile_dropWhile_id [of is_space s] r by simp
  moreover have "takeWhile is_space s \<noteq> []"
    using m by (simp add: match_space_b_def)
  moreover have "\<forall>c\<in>set (takeWhile is_space s). is_space c"
    by (auto dest: set_takeWhileD)
  ultimately show "\<exists>ws rest. s = ws @ ''b/'' @ rest \<and> ws \<noteq> [] \<and> (\<forall>c\<in>set ws. is_space c)"
    by blast
next
  assume "\<exists>ws rest. s = ws @ ''b/'' @ rest \<and> ws \<noteq> [] \<and> (\<forall>c\<in>set ws. is_space c)"
  then obtain ws rest where s: "s = ws @ ''b/'' @ rest" and ne: "ws \<noteq> []"
    and sp: "\<forall>c\<in>set ws. is_space c"
    by blast
  have "takeWhile is_space s = ws"
    using sp by (simp add: s)
  moreover have "dropWhile is_space s = ''b/'' @ rest"
    using sp by (simp add: s)
  ultimately show "match_space_b s"
    using ne by (simp add: match_space_b_def startswith_def)
qed

lemma match_space_b_Nil [simp]: "\<not> match_space_b []"
  by (simp add: match_space_b_def)

lemma lazy_group_sound:
  "lazy_group s = Some p \<Longrightarrow> \<exists>t. s = p @ t \<and> match_space_b t \<and> newline \<notin> set p"
proof (induction s arbitrary: p)
  case Nil
  then show ?case by simp
next
  case (Cons c cs)
  show ?case
  proof (cases "match_space_b (c # cs)")
    case True
    with Cons.prems show ?thesis by simp
  next
    case False
    with Cons.prems obtain q where nl: "c \<noteq> newline" and q: "lazy_group cs = Some q" and p: "p = c # q"
      by (auto split: if_splits)
    from Cons.IH [OF q] nl p show ?thesis by auto
  qed
qed

lemma lazy_group_complete:
  "match_space_b t \<Longrightarrow> newline \<notin> set p \<Longrightarrow>
     \<exists>q. lazy_group (p @ t) = Some q \<and> length q \<le> length p"
proof (induction p)
  case Nil
  then show ?case by (cases t) auto
next
  case (Cons c p)
  then show ?case by auto
qed

lemma startswith_a_slash: "startswith (c # cs) ''a/'' \<longleftrightarrow> c = CHR ''a'' \<and> cs = CHR ''/'' # drop 1 cs"
  by (cases cs) (auto simp: startswith_def)

lemma re_search_a_b_sound:
  "re_search_a_b s = Some p \<Longrightarrow>
     \<exists>pre t. s = pre @ ''a/'' @ p @ t \<and> match_space_b t \<and> newline \<notin> set p"
proof (induction s)
  case Nil
  then show ?case by simp
next
  case (Cons c cs)
  show ?case
  proof (cases "startswith (c # cs) ''a/'' \<and> lazy_group (drop 1 cs) \<noteq> None")
    case True
    with Cons.prems have g: "lazy_group (drop 1 cs) = Some p" by auto
    from True have "c # cs = ''a/'' @ drop 1 cs"
      using startswith_a_slash [of c cs] by simp
    with lazy_group_sound [OF g] have "\<exists>t. c # cs = [] @ ''a/'' @ p @ t \<and> match_space_b t \<and> newline \<notin> set p"
      by auto
    then show ?thesis by blast
  next
    case False
    with Cons.prems have "re_search_a_b cs = Some p" by (auto split: option.splits if_splits)
    from Cons.IH [OF this] obtain pre t where "cs = pre @ ''a/'' @ p @ t" "match_space_b t" "newline \<notin> set p"
      by blast
    then have "c # cs = (c # pre) @ ''a/'' @ p @ t \<and> match_space_b t \<and> newline \<notin> set p" by simp
    then show ?thesis by blast
  qed
qed

lemma re_search_a_b_first:
  "s = pre @ ''a/'' @ p @ t \<Longrightarrow> match_space_b t \<Longrightarrow> newline \<notin> set p \<Longrightarrow>
     \<exists>q pre' t'. re_search_a_b s = Some q \<and>
        s = pre' @ ''a/'' @ q @ t' \<and> match_space_b t' \<and> newline \<notin> set q \<and>
        (length pre' < length pre \<or> (length pre' = length pre \<and> length q \<le> length p))"
proof (induction pre arbitrary: s)
  case Nil
  from lazy_group_complete [OF Nil(2,3)] obtain q
    where q: "lazy_group (p @ t) = Some q" and le: "length q \<le> length p"
    by blast
  from lazy_group_sound [OF q] obtain t'
    where t': "p @ t = q @ t'" "match_space_b t'" "newline \<notin> set q"
    by blast
  have "re_search_a_b s = Some q"
    using Nil(1) q by (simp add: startswith_def)
  moreover have "s = [] @ ''a/'' @ q @ t'"
    using Nil(1) t'(1) by simp
  ultimately show ?case
    using t'(2,3) le by (metis list.size(3))
next
  case (Cons c pre)
  define s' where "s' = pre @ ''a/'' @ p @ t"
  have s: "s = c # s'"
    using Cons.prems(1) by (simp add: s'_def)
  from Cons.IH [OF s'_def Cons.prems(2,3)] obtain q pre' t' where ih:
      "re_search_a_b s' = Some q" "s' = pre' @ ''a/'' @ q @ t'" "match_space_b t'"
      "newline \<notin> set q"
      "length pre' < length pre \<or> (length pre' = length pre \<and> length q \<le> length p)"
    by blast
  show ?case
  proof (cases "startswith (c # s') ''a/'' \<and> lazy_group (drop 1 s') \<noteq> None")
    case True
    then obtain g where g: "lazy_group (drop 1 s') = Some g" by auto
    from True have eq: "c # s' = ''a/'' @ drop 1 s'"
      using startswith_a_slash [of c s'] by simp
    from lazy_group_sound [OF g] obtain u
      where u: "drop 1 s' = g @ u" "match_space_b u" "newline \<notin> set g"
      by blast
    have "s = [] @ ''a/'' @ g @ u"
      using eq u(1) s by simp
    moreover have "re_search_a_b s = Some g"
      using True g s by simp
    moreover have "length ([] :: string) < length (c # pre)"
      by simp
    ultimately show ?thesis
      using u(2,3) by blast
  next
    case False
    then have "re_search_a_b s = re_search_a_b s'"
      unfolding s by (auto split: option.splits)
    then have "re_search_a_b s = Some q"
      using ih(1) by simp
    moreover have "s = (c # pre') @ ''a/'' @ q @ t'"
      using s ih(2) by simp
    moreover have "length (c # pre') < length (c # pre) \<or>
        (length (c # pre') = length (c # pre) \<and> length q \<le> length p)"
      using ih(5) by simp
    ultimately show ?thesis
      using ih(3,4) by blast
  qed
qed

lemma startswith_split: "startswith s p \<Longrightarrow> s = p @ drop (length p) s"
  by (metis startswith_def append_take_drop_id)

lemma plus_b_split:
  assumes "startswith (c # cs) ''+++ b/''"
  shows "c # cs = ''+++ b/'' @ drop 5 cs"
proof -
  have "c # cs = ''+++ b/'' @ drop (length ''+++ b/'') (c # cs)"
    using startswith_split [OF assms] .
  moreover have "length ''+++ b/'' = Suc 5"
    by simp
  ultimately show ?thesis by (simp only: drop_Suc_Cons)
qed

lemma re_search_plus_b_sound:
  "re_search_plus_b s = Some g \<Longrightarrow>
     \<exists>pre rest. s = pre @ ''+++ b/'' @ g @ rest \<and> newline \<notin> set g \<and>
       (rest = [] \<or> hd rest = newline)"
proof (induction s)
  case Nil
  then show ?case by simp
next
  case (Cons c cs)
  show ?case
  proof (cases "startswith (c # cs) ''+++ b/''")
    case True
    let ?r = "drop 5 cs"
    let ?rest = "dropWhile (\<lambda>x. x \<noteq> newline) ?r"
    from True Cons.prems have g: "g = takeWhile (\<lambda>x. x \<noteq> newline) ?r" by simp
    have "c # cs = [] @ ''+++ b/'' @ g @ ?rest"
      using plus_b_split [OF True] by (simp add: g)
    moreover have "newline \<notin> set g"
      unfolding g by (auto dest: set_takeWhileD)
    moreover have "?rest = [] \<or> hd ?rest = newline"
      using hd_dropWhile [of "\<lambda>x. x \<noteq> newline" ?r] by blast
    ultimately show ?thesis by blast
  next
    case False
    with Cons.prems have "re_search_plus_b cs = Some g" by simp
    from Cons.IH [OF this] obtain pre rest where
      "cs = pre @ ''+++ b/'' @ g @ rest" "newline \<notin> set g" "rest = [] \<or> hd rest = newline"
      by blast
    then have "c # cs = (c # pre) @ ''+++ b/'' @ g @ rest \<and> newline \<notin> set g \<and>
        (rest = [] \<or> hd rest = newline)"
      by simp
    then show ?thesis by blast
  qed
qed

lemma re_search_plus_b_first:
  "s = pre @ ''+++ b/'' @ r \<Longrightarrow>
     \<exists>pre' r'. s = pre' @ ''+++ b/'' @ r' \<and> length pre' \<le> length pre \<and>
       re_search_plus_b s = Some (takeWhile (\<lambda>x. x \<noteq> newline) r')"
proof (induction pre arbitrary: s)
  case Nil
  then have "s = [] @ ''+++ b/'' @ r \<and> length ([] :: string) \<le> length ([] :: string) \<and>
      re_search_plus_b s = Some (takeWhile (\<lambda>x. x \<noteq> newline) r)"
    by (simp add: startswith_def)
  then show ?case by blast
next
  case (Cons c pre)
  define s' where "s' = pre @ ''+++ b/'' @ r"
  have s: "s = c # s'"
    using Cons.prems by (simp add: s'_def)
  show ?case
  proof (cases "startswith (c # s') ''+++ b/''")
    case True
    have "s = [] @ ''+++ b/'' @ drop 5 s'"
      using plus_b_split [OF True] s by simp
    moreover have "re_search_plus_b s = Some (takeWhile (\<lambda>x. x \<noteq> newline) (drop 5 s'))"
      using True s by simp
    moreover have "length ([] :: string) \<le> length (c # pre)"
      by simp
    ultimately show ?thesis by blast
  next
    case False
    from Cons.IH [OF s'_def] obtain pre' r' where ih:
      "s' = pre' @ ''+++ b/'' @ r'" "length pre' \<le> length pre"
      "re_search_plus_b s' = Some (takeWhile (\<lambda>x. x \<noteq> newline) r')"
      by blast
    have "re_search_plus_b s = Some (takeWhile (\<lambda>x. x \<noteq> newline) r')"
      using False s ih(3) by simp
    moreover have "s = (c # pre') @ ''+++ b/'' @ r'"
      using s ih(1) by simp
    moreover have "length (c # pre') \<le> length (c # pre)"
      using ih(2) by simp
    ultimately show ?thesis by blast
  qed
qed

lemma re_search_a_b_occurrence:
  "re_search_a_b sec = Some p \<Longrightarrow>
     \<exists>pre ws rest. sec = pre @ ''a/'' @ p @ ws @ ''b/'' @ rest \<and> ws \<noteq> [] \<and>
       (\<forall>c\<in>set ws. is_space c) \<and> newline \<notin> set p"
proof -
  assume "re_search_a_b sec = Some p"
  from re_search_a_b_sound [OF this] obtain pre t
    where t: "sec = pre @ ''a/'' @ p @ t" "match_space_b t" "newline \<notin> set p"
    by blast
  from t(2) obtain ws rest where "t = ws @ ''b/'' @ rest" "ws \<noteq> []" "\<forall>c\<in>set ws. is_space c"
    unfolding match_space_b_iff by blast
  with t(1,3) show ?thesis by blast
qed

lemma re_search_a_b_leftmost:
  assumes "sec = pre @ ''a/'' @ p @ ws @ ''b/'' @ rest" and "ws \<noteq> []"
    and "\<forall>c\<in>set ws. is_space c" and "newline \<notin> set p"
  shows "\<exists>q pre' ws' rest'. re_search_a_b sec = Some q \<and>
           sec = pre' @ ''a/'' @ q @ ws' @ ''b/'' @ rest' \<and> ws' \<noteq> [] \<and>
           (\<forall>c\<in>set ws'. is_space c) \<and> newline \<notin> set q \<and>
           (length pre' < length pre \<or> (length pre' = length pre \<and> length q \<le> length p))"
proof -
  have m: "match_space_b (ws @ ''b/'' @ rest)"
    unfolding match_space_b_iff using assms(2,3) by blast
  from re_search_a_b_first [OF assms(1) m assms(4)] obtain q pre' t' where q:
    "re_search_a_b sec = Some q" "sec = pre' @ ''a/'' @ q @ t'" "match_space_b t'"
    "newline \<notin> set q"
    "length pre' < length pre \<or> (length pre' = length pre \<and> length q \<le> length p)"
    by blast
  from q(3) obtain ws' rest' where "t' = ws' @ ''b/'' @ rest'" "ws' \<noteq> []" "\<forall>c\<in>set ws'. is_space c"
    unfolding match_space_b_iff by blast
  with q(1,2,4,5) show ?thesis by blast
qed

lemma re_search_plus_b_None_iff: "re_search_plus_b sec = None \<longleftrightarrow> \<not> sublist ''+++ b/'' sec"
proof
  assume n: "re_search_plus_b sec = None"
  show "\<not> sublist ''+++ b/'' sec"
  proof
    assume "sublist ''+++ b/'' sec"
    then obtain pre r where "sec = pre @ ''+++ b/'' @ r"
      by (auto simp: sublist_def)
    from re_search_plus_b_first [OF this] n show False by auto
  qed
next
  assume ns: "\<not> sublist ''+++ b/'' sec"
  show "re_search_plus_b sec = None"
  proof (cases "re_search_plus_b sec")
    case None
    then show ?thesis .
  next
    case (Some g)
    from re_search_plus_b_sound [OF Some] obtain pre rest where "sec = pre @ ''+++ b/'' @ (g @ rest)"
      by auto
    then have "sublist ''+++ b/'' sec"
      unfolding sublist_def by blast
    with ns show ?thesis by simp
  qed
qed

section \<open>The parser as a map over the emitted sections\<close>

lemma emitted_not_blank: "extract_file_path sec \<noteq> [] \<Longrightarrow> strip sec \<noteq> []"
proof (cases "re_search_a_b sec")
  case (Some p)
  from re_search_a_b_sound [OF Some] have "CHR ''a'' \<in> set sec" by auto
  then show ?thesis
    using strip_empty_iff [of sec] by (metis not_space_simps(2))
next
  case None
  assume "extract_file_path sec \<noteq> []"
  with None obtain g where "re_search_plus_b sec = Some g"
    by (auto simp: extract_file_path_def split: option.splits)
  from re_search_plus_b_sound [OF this] have "CHR ''+'' \<in> set sec" by auto
  then show ?thesis
    using strip_empty_iff [of sec] by (metis not_space_simps(3))
qed

lemma parse_diff_eq: "parse_diff s = map section_record (filter emitted (re_split_marker s))"
proof -
  have same: "filter (\<lambda>sec. strip sec \<noteq> [] \<and> emitted sec) secs = filter emitted secs" for secs
    by (rule filter_cong) (auto simp: emitted_def dest: emitted_not_blank)
  show ?thesis
  proof (cases "s = [] \<or> strip s = []")
    case True
    then have blank: "\<forall>c\<in>set s. is_space c"
      using strip_empty_iff [of s] by auto
    have "\<not> emitted sec" if "sec \<in> set (re_split_marker s)" for sec
    proof -
      have "\<forall>c\<in>set sec. is_space c"
        using re_split_marker_set [OF that] blank by auto
      then have "strip sec = []" by (simp add: strip_empty_iff)
      then show ?thesis
        using emitted_not_blank [of sec] by (auto simp: emitted_def)
    qed
    then have "filter emitted (re_split_marker s) = []"
      by (simp add: filter_empty_conv)
    with True show ?thesis by (simp add: parse_diff_def)
  next
    case False
    then show ?thesis
      by (simp add: parse_diff_def parse_diff_loop_eq same)
  qed
qed

lemma startswith_Cons: "startswith (c # s) (d # p) \<longleftrightarrow> c = d \<and> startswith s p"
  by (simp add: startswith_def)

lemma startswith_extend: "startswith s p \<Longrightarrow> startswith (s @ t) p"
  by (auto simp: startswith_append)

lemma startswith_not_straddling:
  assumes "startswith (cs @ x # t) m" and "x \<notin> set m"
  shows "startswith cs m"
proof (cases "length m \<le> length cs")
  case True
  with assms(1) show ?thesis
    by (simp add: startswith_def)
next
  case False
  then obtain k where "length m - length cs = Suc k"
    by (cases "length m - length cs") auto
  then have "take (length m) (cs @ x # t) = cs @ x # take k t"
    using False by simp
  with assms(1) have "m = cs @ x # take k t"
    by (simp add: startswith_def)
  then have "x \<in> set m"
    by simp
  with assms(2) show ?thesis by simp
qed

lemma marker_not_straddling:
  assumes "startswith (c # cs @ section_marker @ t) section_marker"
  shows "startswith (c # cs) section_marker"
proof -
  from assms have c: "c = newline"
    and m: "startswith (cs @ newline # (''diff --git'' @ t)) ''diff --git''"
    by (simp_all add: section_marker_def startswith_Cons)
  have "startswith cs ''diff --git''"
    by (rule startswith_not_straddling [OF m]) simp
  with c show ?thesis
    by (simp add: section_marker_def startswith_Cons)
qed

lemma re_split_marker_append:
  "re_split_marker (s1 @ section_marker @ s2) = re_split_marker s1 @ re_split_marker s2"
proof (induction s1 rule: re_split_marker.induct)
  case 1
  show ?case by (simp add: section_marker_def startswith_def)
next
  case (2 c cs)
  show ?case
  proof (cases "startswith (c # cs) section_marker")
    case True
    from marker_split [OF True] have cs: "cs = ''diff --git'' @ drop 10 cs"
      by (simp add: section_marker_def)
    then have "length cs = length ''diff --git'' + length (drop 10 cs)"
      by (metis length_append)
    then have len: "10 \<le> length cs"
      by simp
    have "startswith (c # cs @ section_marker @ s2) section_marker"
      using startswith_extend [OF True, of "section_marker @ s2"] by simp
    moreover have "drop 10 (cs @ section_marker @ s2) = drop 10 cs @ section_marker @ s2"
      using len by simp
    ultimately show ?thesis
      using 2(1) [OF True] True by simp
  next
    case False
    then have "\<not> startswith (c # cs @ section_marker @ s2) section_marker"
      using marker_not_straddling [of c cs s2] by blast
    moreover obtain p ps where "re_split_marker cs = p # ps"
      using re_split_marker_nonempty [of cs] by (cases "re_split_marker cs") auto
    ultimately show ?thesis
      using 2(2) [OF False] False by simp
  qed
qed

lemma str_int_0: "str_int 0 = ''0''"
  by (simp add: str_int_def str_nat.simps digit_char_def)

lemma no_change_lines:
  "\<forall>l\<in>set ls. (prefix ''+'' l \<or> prefix ''-'' l) \<longrightarrow> (prefix ''+++'' l \<or> prefix ''---'' l) \<Longrightarrow>
     additions_of (map classify_line ls) = [] \<and> deletions_of (map classify_line ls) = []"
  by (induction ls) (auto simp: classify_line_def)





lemma extract_changes_eq:
  "extract_changes sec =
     (additions_of (map classify_line (split_newline sec)),
      deletions_of (map classify_line (split_newline sec)))"
  by (simp add: extract_changes_def extract_changes_loop_eq)

lemma parse_diff_mem:
  "r \<in> set (parse_diff s) \<longleftrightarrow> (\<exists>sec\<in>set (re_split_marker s). emitted sec \<and> r = section_record sec)"
  by (auto simp: parse_diff_eq)

section \<open>The claims of the specification\<close>

text \<open>
  Claim C1, as stated, fails in one part. It says that text which does not follow the
  unified-diff convention yields zero records. The parser never looks for the header
  \<^verbatim>\<open>diff --git\<close> nor for any markup: a sentence of prose in which \<^verbatim>\<open>a/\<close>, some text, a
  space and \<^verbatim>\<open>b/\<close> follow one another yields a record.
\<close>

theorem prose_yields_record_counterexample:
  "\<not> sublist ''diff --git'' ''moved data/notes b/archive'' \<and>
   \<not> sublist ''+++'' ''moved data/notes b/archive'' \<and>
   \<not> sublist ''---'' ''moved data/notes b/archive'' \<and>
   \<not> sublist ''@@'' ''moved data/notes b/archive'' \<and>
   parse_diff ''moved data/notes b/archive'' =
     [\<lparr>file_path = ''notes'', additions = [], deletions = [],
       addition_count = 0, deletion_count = 0, change_summary = ''+0, -0''\<rparr>]"
  by code_simp

text \<open>
  Claim C1, amended. \<open>parse_diff\<close> is a total function on strings: none of the operations
  of the source (\<^verbatim>\<open>strip\<close>, \<^verbatim>\<open>re.split\<close>, \<^verbatim>\<open>re.search\<close>, \<^verbatim>\<open>group(1)\<close> of a match whose
  group always takes part, \<^verbatim>\<open>split\<close>, \<^verbatim>\<open>startswith\<close>, slicing, \<^verbatim>\<open>len\<close>) can raise on a
  string, so the model has no error value. For every input the result is the sequence in
  which each candidate section, in order, contributes its one record or nothing; there are
  at most as many records as sections; the result is empty exactly when no section has a
  non-empty extracted path; and this is the case for a text none of whose sections matches
  either path pattern.
\<close>

theorem parse_diff_total:
  "parse_diff s =
     concat (map (\<lambda>sec. if extract_file_path sec = [] then [] else [section_record sec])
       (re_split_marker s)) \<and>
   length (parse_diff s) \<le> length (re_split_marker s) \<and>
   (parse_diff s = [] \<longleftrightarrow> (\<forall>sec\<in>set (re_split_marker s). extract_file_path sec = [])) \<and>
   ((\<forall>sec\<in>set (re_split_marker s). re_search_a_b sec = None \<and> re_search_plus_b sec = None)
      \<longrightarrow> parse_diff s = [])"
proof -
  have c: "map f (filter P xs) = concat (map (\<lambda>x. if \<not> P x then [] else [f x]) xs)"
    for f :: "string \<Rightarrow> FileChange" and P xs
    by (induction xs) auto
  have 1: "parse_diff s =
     concat (map (\<lambda>sec. if extract_file_path sec = [] then [] else [section_record sec])
       (re_split_marker s))"
    using c [of section_record emitted "re_split_marker s"]
    by (simp add: parse_diff_eq emitted_def)
  have 2: "length (parse_diff s) \<le> length (re_split_marker s)"
    by (simp add: parse_diff_eq)
  have 3: "parse_diff s = [] \<longleftrightarrow> (\<forall>sec\<in>set (re_split_marker s). extract_file_path sec = [])"
    by (simp add: parse_diff_eq filter_empty_conv emitted_def)
  have 4: "(\<forall>sec\<in>set (re_split_marker s). re_search_a_b sec = None \<and> re_search_plus_b sec = None)
      \<longrightarrow> parse_diff s = []"
  proof
    assume "\<forall>sec\<in>set (re_split_marker s). re_search_a_b sec = None \<and> re_search_plus_b sec = None"
    then have "\<forall>sec\<in>set (re_split_marker s). extract_file_path sec = []"
      by (simp add: extract_file_path_def)
    with 3 show "parse_diff s = []"
      by simp
  qed
  from 1 2 3 4 show ?thesis
    by (intro conjI)
qed

theorem parse_diff_total_witness:
  "re_split_marker (''--- old.txt'' @ section_marker @ '' is not a header'') =
     [''--- old.txt'', '' is not a header''] \<and>
   list_all (\<lambda>sec. re_search_a_b sec = None \<and> re_search_plus_b sec = None)
     (re_split_marker (''--- old.txt'' @ section_marker @ '' is not a header'')) \<and>
   list_all (\<lambda>sec. extract_file_path sec = [])
     (re_split_marker (''--- old.txt'' @ section_marker @ '' is not a header'')) \<and>
   parse_diff (''--- old.txt'' @ section_marker @ '' is not a header'') = [] \<and>
   re_search_a_b ''see a/ b/ here'' = Some [] \<and>
   list_all (\<lambda>sec. extract_file_path sec = []) (re_split_marker ''see a/ b/ here'') \<and>
   parse_diff ''see a/ b/ here'' = []"
proof -
  let ?s = "''--- old.txt'' @ section_marker @ '' is not a header''"
  let ?t = "''see a/ b/ here''"
  have a: "re_split_marker ?s = [''--- old.txt'', '' is not a header'']"
    by code_simp
  have b: "list_all (\<lambda>sec. re_search_a_b sec = None \<and> re_search_plus_b sec = None)
     (re_split_marker ?s)"
    by code_simp
  then have b': "\<forall>sec\<in>set (re_split_marker ?s). re_search_a_b sec = None \<and> re_search_plus_b sec = None"
    by (simp only: list_all_iff)
  note total = parse_diff_total [of ?s]
  from total have
    imp: "(\<forall>sec\<in>set (re_split_marker ?s). re_search_a_b sec = None \<and> re_search_plus_b sec = None)
      \<longrightarrow> parse_diff ?s = []"
    by (elim conjE)
  from total have
    iff: "parse_diff ?s = [] \<longleftrightarrow> (\<forall>sec\<in>set (re_split_marker ?s). extract_file_path sec = [])"
    by (elim conjE)
  from imp b' have p: "parse_diff ?s = []"
    by (rule mp)
  from iff p have "\<forall>sec\<in>set (re_split_marker ?s). extract_file_path sec = []"
    by (rule iffD1)
  then have e: "list_all (\<lambda>sec. extract_file_path sec = []) (re_split_marker ?s)"
    by (simp only: list_all_iff)
  have g: "re_search_a_b ?t = Some []"
    by code_simp
  have h: "list_all (\<lambda>sec. extract_file_path sec = []) (re_split_marker ?t)"
    by code_simp
  then have h': "\<forall>sec\<in>set (re_split_marker ?t). extract_file_path sec = []"
    by (simp only: list_all_iff)
  from parse_diff_total [of ?t] have
    "parse_diff ?t = [] \<longleftrightarrow> (\<forall>sec\<in>set (re_split_marker ?t). extract_file_path sec = [])"
    by (elim conjE)
  from this h' have q: "parse_diff ?t = []"
    by (rule iffD2)
  from a b e p g h q show ?thesis
    by (intro conjI)
qed



text \<open>
  Claim C3, as stated, fails in its second rule. The claim takes the path from a
  \<^emph>\<open>line beginning\<close> with \<^verbatim>\<open>+++ b/\<close>; the regular expression of the source is not anchored
  at a line start. In the section \<^verbatim>\<open>x+++ b/f\<close> no line begins with \<^verbatim>\<open>+++ b/\<close>, so the
  extraction the claim describes yields the empty path and no record, while the parser
  extracts \<^verbatim>\<open>f\<close> and emits a record.
\<close>

theorem marker_inside_line_counterexample:
  "spec_extract_file_path ''x+++ b/f'' = [] \<and>
   extract_file_path ''x+++ b/f'' = ''f'' \<and>
   parse_diff ''x+++ b/f'' =
     [\<lparr>file_path = ''f'', additions = [], deletions = [],
       addition_count = 0, deletion_count = 0, change_summary = ''+0, -0''\<rparr>]"
  by code_simp

text \<open>
  Claim C3, amended: the second rule takes the first occurrence of \<^verbatim>\<open>+++ b/\<close> anywhere in
  the section. For a section \<open>sec\<close>:
  \<^item> when the first pattern matches, the path is its group, which stands in the section
    between \<^verbatim>\<open>a/\<close> and a non-empty run of whitespace followed by \<^verbatim>\<open>b/\<close>, and holds no
    line feed (\<^verbatim>\<open>.\<close> does not match one);
  \<^item> the first pattern fails only when the section has no such occurrence, and then the
    path is the trimmed group of the second pattern, or empty when that fails too;
  \<^item> the second pattern matches at the leftmost occurrence of \<^verbatim>\<open>+++ b/\<close>, its group
    running to the end of that line, and fails only when the section has no occurrence;
  \<^item> the records of \<open>parse_diff s\<close> are, in order, those of the sections of \<open>s\<close> whose
    extracted path is not empty, each with that path.
\<close>

theorem path_extraction_policy:
  "(\<forall>p. re_search_a_b sec = Some p \<longrightarrow>
      extract_file_path sec = p \<and>
      (\<exists>pre ws rest. sec = pre @ ''a/'' @ p @ ws @ ''b/'' @ rest \<and> ws \<noteq> [] \<and>
         (\<forall>c\<in>set ws. is_space c) \<and> newline \<notin> set p)) \<and>
   (re_search_a_b sec = None \<longrightarrow>
      \<not> (\<exists>pre p ws rest. sec = pre @ ''a/'' @ p @ ws @ ''b/'' @ rest \<and> ws \<noteq> [] \<and>
         (\<forall>c\<in>set ws. is_space c) \<and> newline \<notin> set p) \<and>
      extract_file_path sec = (case re_search_plus_b sec of Some g \<Rightarrow> strip g | None \<Rightarrow> [])) \<and>
   (\<forall>pre r. sec = pre @ ''+++ b/'' @ r \<longrightarrow>
      (\<exists>pre' r'. sec = pre' @ ''+++ b/'' @ r' \<and> length pre' \<le> length pre \<and>
         re_search_plus_b sec = Some (takeWhile (\<lambda>x. x \<noteq> newline) r'))) \<and>
   (re_search_plus_b sec = None \<longleftrightarrow> \<not> sublist ''+++ b/'' sec) \<and>
   parse_diff s =
     map section_record (filter (\<lambda>sec. extract_file_path sec \<noteq> []) (re_split_marker s)) \<and>
   file_path (section_record sec) = extract_file_path sec"
proof -
  have a: "extract_file_path sec = p \<and>
      (\<exists>pre ws rest. sec = pre @ ''a/'' @ p @ ws @ ''b/'' @ rest \<and> ws \<noteq> [] \<and>
         (\<forall>c\<in>set ws. is_space c) \<and> newline \<notin> set p)"
    if "re_search_a_b sec = Some p" for p
    using that re_search_a_b_occurrence [OF that] by (simp add: extract_file_path_def)
  have b: "\<not> (\<exists>pre p ws rest. sec = pre @ ''a/'' @ p @ ws @ ''b/'' @ rest \<and> ws \<noteq> [] \<and>
         (\<forall>c\<in>set ws. is_space c) \<and> newline \<notin> set p)"
    if n: "re_search_a_b sec = None"
  proof
    assume "\<exists>pre p ws rest. sec = pre @ ''a/'' @ p @ ws @ ''b/'' @ rest \<and> ws \<noteq> [] \<and>
         (\<forall>c\<in>set ws. is_space c) \<and> newline \<notin> set p"
    then obtain pre p ws rest where "sec = pre @ ''a/'' @ p @ ws @ ''b/'' @ rest" "ws \<noteq> []"
      "\<forall>c\<in>set ws. is_space c" "newline \<notin> set p"
      by blast
    from re_search_a_b_leftmost [OF this] n show False by auto
  qed
  have c: "extract_file_path sec = (case re_search_plus_b sec of Some g \<Rightarrow> strip g | None \<Rightarrow> [])"
    if "re_search_a_b sec = None"
    using that by (simp add: extract_file_path_def)
  have d: "\<exists>pre' r'. sec = pre' @ ''+++ b/'' @ r' \<and> length pre' \<le> length pre \<and>
         re_search_plus_b sec = Some (takeWhile (\<lambda>x. x \<noteq> newline) r')"
    if "sec = pre @ ''+++ b/'' @ r" for pre r
    using re_search_plus_b_first [OF that] .
  have e: "parse_diff s =
     map section_record (filter (\<lambda>sec. extract_file_path sec \<noteq> []) (re_split_marker s))"
    using parse_diff_eq [of s] by (simp add: emitted_def [abs_def])
  have f: "file_path (section_record sec) = extract_file_path sec"
    by (simp add: section_record_def)
  from a b c d e f re_search_plus_b_None_iff [of sec] show ?thesis
    by blast
qed

theorem path_extraction_policy_witness:
  "re_search_a_b rename_diff = Some ''old.py'' \<and>
   extract_file_path rename_diff = ''old.py'' \<and>
   re_search_a_b headerless_diff = None \<and>
   re_search_plus_b headerless_diff = Some ''README.md'' \<and>
   extract_file_path headerless_diff = ''README.md'' \<and>
   re_search_a_b ''x+++ b/f'' = None \<and>
   ''x+++ b/f'' = ''x'' @ ''+++ b/'' @ ''f'' \<and>
   re_search_plus_b ''x+++ b/f'' = Some ''f'' \<and>
   extract_file_path ''x+++ b/f'' = ''f'' \<and>
   parse_diff ''x+++ b/f'' = map section_record [''x+++ b/f'']"
proof -
  have r: "re_search_a_b rename_diff = Some ''old.py''"
    by code_simp
  have h: "re_search_a_b headerless_diff = None"
    "re_search_plus_b headerless_diff = Some ''README.md''"
    by code_simp+
  have x: "re_search_a_b ''x+++ b/f'' = None" "re_search_plus_b ''x+++ b/f'' = Some ''f''"
    "re_split_marker ''x+++ b/f'' = [''x+++ b/f'']"
    by code_simp+
  have st: "strip ''README.md'' = ''README.md''" "strip ''f'' = ''f''"
    by code_simp+
  from path_extraction_policy [of rename_diff] r
  have 1: "extract_file_path rename_diff = ''old.py''"
    by blast
  from path_extraction_policy [of headerless_diff] h
  have 2: "extract_file_path headerless_diff = ''README.md''"
    by (simp add: st)
  from path_extraction_policy [of "''x+++ b/f''" "''x+++ b/f''"] x(1)
  have 3: "extract_file_path ''x+++ b/f'' =
      (case re_search_plus_b ''x+++ b/f'' of Some g \<Rightarrow> strip g | None \<Rightarrow> [])"
    and 4: "parse_diff ''x+++ b/f'' =
      map section_record (filter (\<lambda>sec. extract_file_path sec \<noteq> []) (re_split_marker ''x+++ b/f''))"
    by blast+
  from 3 have 5: "extract_file_path ''x+++ b/f'' = ''f''"
    by (simp only: x(2) st option.case)
  have "filter (\<lambda>sec. extract_file_path sec \<noteq> []) [''x+++ b/f''] = [''x+++ b/f'']"
    by (simp only: filter.simps 5) simp
  with 4 have 6: "parse_diff ''x+++ b/f'' = map section_record [''x+++ b/f'']"
    by (simp only: x(3))
  from r h x(1,2) 1 2 5 6 show ?thesis
    by simp
qed

text \<open>
  Claim C4. For every FileChange record in the output of \<open>parse_diff\<close>, \<open>addition_count\<close>
  is the length of the \<open>additions\<close> sequence and \<open>deletion_count\<close> is the length of the
  \<open>deletions\<close> sequence.
\<close>

theorem counts_match_sequences:
  "r \<in> set (parse_diff s) \<Longrightarrow>
     addition_count r = int (length (additions r)) \<and>
     deletion_count r = int (length (deletions r))"
  by (auto simp: parse_diff_mem section_record_def)

theorem counts_match_sequences_witness:
  "\<lparr>file_path = ''src/main.py'',
      additions = [''print(\"new\")'', ''return True''],
      deletions = [''print(\"old\")''],
      addition_count = 2, deletion_count = 1, change_summary = ''+2, -1''\<rparr>
     \<in> set (parse_diff sample_diff) \<and>
   (2 :: int) = int (length [''print(\"new\")'', ''return True'']) \<and>
   (1 :: int) = int (length [''print(\"old\")''])"
proof -
  let ?r = "\<lparr>file_path = ''src/main.py'',
      additions = [''print(\"new\")'', ''return True''],
      deletions = [''print(\"old\")''],
      addition_count = 2, deletion_count = 1, change_summary = ''+2, -1''\<rparr>"
  have mem: "?r \<in> set (parse_diff sample_diff)"
    by code_simp
  from counts_match_sequences [OF mem] mem show ?thesis
    by simp
qed





text \<open>
  Claim C7. On the empty string and on every string of whitespace only, \<open>parse_diff\<close>
  returns the empty list and \<open>get_summary\<close> returns \<^verbatim>\<open>No changes detected\<close>. (The empty
  string is the case \<open>s = []\<close>, where the hypothesis holds of no character.)
\<close>

theorem blank_input_no_changes:
  "\<forall>c\<in>set s. is_space c \<Longrightarrow>
     parse_diff s = [] \<and> get_summary s = ''No changes detected''"
proof -
  assume "\<forall>c\<in>set s. is_space c"
  then have "strip s = []"
    by (simp add: strip_empty_iff)
  then have "parse_diff s = []"
    by (simp add: parse_diff_def)
  then show ?thesis
    by (simp add: get_summary_def)
qed

theorem blank_input_no_changes_witness:
  "list_all is_space [CHR '' '', CHR '' '', CHR '' '', newline, CHR 0x09] \<and>
   parse_diff [CHR '' '', CHR '' '', CHR '' '', newline, CHR 0x09] = [] \<and>
   get_summary [CHR '' '', CHR '' '', CHR '' '', newline, CHR 0x09] = ''No changes detected'' \<and>
   parse_diff [] = [] \<and> get_summary [] = ''No changes detected''"
proof -
  have h: "\<forall>c\<in>set [CHR '' '', CHR '' '', CHR '' '', newline, CHR 0x09]. is_space c"
    by (simp add: is_space_def whitespace_chars_def)
  have e: "\<forall>c\<in>set ([] :: string). is_space c"
    by simp
  from blank_input_no_changes [OF h] blank_input_no_changes [OF e] h show ?thesis
    by (simp add: list_all_iff)
qed

text \<open>
  Claim C8. A section of the input with a non-empty extracted path in which no line begins
  with \<^verbatim>\<open>+\<close> or \<^verbatim>\<open>-\<close>, file-marker lines (\<^verbatim>\<open>+++\<close>, \<^verbatim>\<open>---\<close>) apart, has its record in the
  result: empty \<open>additions\<close> and \<open>deletions\<close>, both counts 0 and the summary \<^verbatim>\<open>+0, -0\<close>.
\<close>

theorem section_without_changes_is_kept:
  assumes "sec \<in> set (re_split_marker s)"
    and "extract_file_path sec \<noteq> []"
    and "\<forall>l\<in>set (split_newline sec).
           (prefix ''+'' l \<or> prefix ''-'' l) \<longrightarrow> (prefix ''+++'' l \<or> prefix ''---'' l)"
  shows "\<lparr>file_path = extract_file_path sec, additions = [], deletions = [],
           addition_count = 0, deletion_count = 0, change_summary = ''+0, -0''\<rparr>
         \<in> set (parse_diff s)"
proof -
  have "extract_changes sec = ([], [])"
    using no_change_lines [OF assms(3)] by (simp add: extract_changes_eq)
  then have "section_record sec =
      \<lparr>file_path = extract_file_path sec, additions = [], deletions = [],
        addition_count = 0, deletion_count = 0, change_summary = ''+0, -0''\<rparr>"
    by (simp add: section_record_def str_int_0)
  moreover have "section_record sec \<in> set (parse_diff s)"
    using assms(1,2) by (auto simp: parse_diff_mem emitted_def)
  ultimately show ?thesis by simp
qed

theorem section_without_changes_is_kept_witness:
  "mode_change_diff \<in> set (re_split_marker mode_change_diff) \<and>
   extract_file_path mode_change_diff = ''run.sh'' \<and>
   list_all (\<lambda>l. (prefix ''+'' l \<or> prefix ''-'' l) \<longrightarrow> (prefix ''+++'' l \<or> prefix ''---'' l))
     (split_newline mode_change_diff) \<and>
   parse_diff mode_change_diff =
     [\<lparr>file_path = ''run.sh'', additions = [], deletions = [],
       addition_count = 0, deletion_count = 0, change_summary = ''+0, -0''\<rparr>]"
proof -
  have a: "mode_change_diff \<in> set (re_split_marker mode_change_diff)"
    by code_simp
  have b: "extract_file_path mode_change_diff = ''run.sh''"
    by code_simp
  have c: "list_all (\<lambda>l. (prefix ''+'' l \<or> prefix ''-'' l) \<longrightarrow> (prefix ''+++'' l \<or> prefix ''---'' l))
     (split_newline mode_change_diff)"
    by code_simp
  have d: "length (parse_diff mode_change_diff) = 1"
    by code_simp
  have ne: "extract_file_path mode_change_diff \<noteq> []"
    by (simp add: b)
  have c': "\<forall>l\<in>set (split_newline mode_change_diff).
      (prefix ''+'' l \<or> prefix ''-'' l) \<longrightarrow> (prefix ''+++'' l \<or> prefix ''---'' l)"
    using c by (simp only: list_all_iff)
  from section_without_changes_is_kept [OF a ne c'] have
    "\<lparr>file_path = ''run.sh'', additions = [], deletions = [],
       addition_count = 0, deletion_count = 0, change_summary = ''+0, -0''\<rparr>
     \<in> set (parse_diff mode_change_diff)"
    by (simp add: b)
  with d have "parse_diff mode_change_diff =
     [\<lparr>file_path = ''run.sh'', additions = [], deletions = [],
       addition_count = 0, deletion_count = 0, change_summary = ''+0, -0''\<rparr>]"
    by (cases "parse_diff mode_change_diff") auto
  with a b c show ?thesis by blast
qed

text \<open>
  Claim C9. The sections \<open>re_split_marker\<close> cuts the input into give the input back when
  joined by the marker (a line feed followed by \<^verbatim>\<open>diff --git\<close>), and none of them contains
  the marker: the input is cut at every occurrence, the text before the first one being the
  first section. The records of \<open>parse_diff\<close> are those of the sections that are not blank
  and have a path, in the order of the sections. Two texts joined by the marker give the
  records of the first followed by the records of the second.
\<close>

theorem sections_split_in_order:
  "join section_marker (re_split_marker s) = s \<and>
   (\<forall>sec\<in>set (re_split_marker s). \<not> sublist section_marker sec) \<and>
   parse_diff s =
     map section_record
       (filter (\<lambda>sec. strip sec \<noteq> [] \<and> extract_file_path sec \<noteq> []) (re_split_marker s)) \<and>
   parse_diff (s1 @ section_marker @ s2) = parse_diff s1 @ parse_diff s2"
proof -
  have "filter (\<lambda>sec. strip sec \<noteq> [] \<and> extract_file_path sec \<noteq> []) secs = filter emitted secs"
    for secs
    by (rule filter_cong) (auto simp: emitted_def dest: emitted_not_blank)
  then have "parse_diff s =
     map section_record
       (filter (\<lambda>sec. strip sec \<noteq> [] \<and> extract_file_path sec \<noteq> []) (re_split_marker s))"
    by (simp add: parse_diff_eq)
  moreover have "parse_diff (s1 @ section_marker @ s2) = parse_diff s1 @ parse_diff s2"
    by (simp add: parse_diff_eq re_split_marker_append)
  ultimately show ?thesis
    using join_re_split_marker [of s] re_split_marker_no_marker [of _ s] by blast
qed

theorem sections_split_in_order_witness:
  "re_split_marker (rename_diff @ section_marker @ '' a/run.sh b/run.sh'') =
     [rename_diff, '' a/run.sh b/run.sh''] \<and>
   list_all (\<lambda>sec. \<not> sublist section_marker sec)
     (re_split_marker (rename_diff @ section_marker @ '' a/run.sh b/run.sh'')) \<and>
   parse_diff (rename_diff @ section_marker @ '' a/run.sh b/run.sh'') =
     [\<lparr>file_path = ''old.py'', additions = [], deletions = [],
       addition_count = 0, deletion_count = 0, change_summary = ''+0, -0''\<rparr>,
      \<lparr>file_path = ''run.sh'', additions = [], deletions = [],
       addition_count = 0, deletion_count = 0, change_summary = ''+0, -0''\<rparr>]"
proof -
  let ?s = "rename_diff @ section_marker @ '' a/run.sh b/run.sh''"
  have a: "re_split_marker ?s = [rename_diff, '' a/run.sh b/run.sh'']"
    by code_simp
  have p1: "parse_diff rename_diff =
     [\<lparr>file_path = ''old.py'', additions = [], deletions = [],
       addition_count = 0, deletion_count = 0, change_summary = ''+0, -0''\<rparr>]"
    by code_simp
  have p2: "parse_diff '' a/run.sh b/run.sh'' =
     [\<lparr>file_path = ''run.sh'', additions = [], deletions = [],
       addition_count = 0, deletion_count = 0, change_summary = ''+0, -0''\<rparr>]"
    by code_simp
  from sections_split_in_order [of ?s rename_diff "'' a/run.sh b/run.sh''"]
  have b: "\<forall>sec\<in>set (re_split_marker ?s). \<not> sublist section_marker sec"
    and c: "parse_diff ?s = parse_diff rename_diff @ parse_diff '' a/run.sh b/run.sh''"
    by blast+
  from b have "list_all (\<lambda>sec. \<not> sublist section_marker sec) (re_split_marker ?s)"
    by (simp only: list_all_iff)
  with a c show ?thesis
    by (simp only: p1 p2 append.simps)
qed

text \<open>
  Claim C10, as stated, fails when the text between \<^verbatim>\<open>a/\<close> and the whitespace before
  \<^verbatim>\<open>b/\<close> runs over a line feed, which \<^verbatim>\<open>.\<close> does not match. The two marker lines of a
  rename contain \<^verbatim>\<open>a/\<close>, then \<^verbatim>\<open>old.py\<close>, a line feed and \<^verbatim>\<open>+++\<close>, then a space, then
  \<^verbatim>\<open>b/\<close>; the first pattern finds no match there, and the path is taken from the
  \<^verbatim>\<open>+++ b/\<close> line.
\<close>

theorem path_across_lines_counterexample:
  "marker_pair_diff =
     ''--- '' @ ''a/'' @ (''old.py'' @ [newline] @ ''+++'') @ '' '' @ ''b/'' @ ''new.py'' \<and>
   is_space CHR '' '' \<and>
   re_search_a_b marker_pair_diff = None \<and>
   extract_file_path marker_pair_diff = ''new.py'' \<and>
   parse_diff marker_pair_diff =
     [\<lparr>file_path = ''new.py'', additions = [], deletions = [],
       addition_count = 0, deletion_count = 0, change_summary = ''+0, -0''\<rparr>]"
  by code_simp

text \<open>
  Claim C10, amended: the text after \<^verbatim>\<open>a/\<close> holds no line feed. Let the section contain
  \<^verbatim>\<open>a/\<close>, a text \<open>p\<close> on one line, a non-empty run of whitespace and \<^verbatim>\<open>b/\<close>, in this
  order. Then the first pattern matches, and the extracted path \<open>q\<close> is its group, the group
  of such an occurrence and of the first one: it starts before the given occurrence, or at
  the same place with a group no longer than \<open>p\<close>. This holds of every occurrence, whatever
  the \<^verbatim>\<open>+++ b/\<close> line says, so that line gives the path only when there is no occurrence on
  one line at all. When \<open>q\<close> is not empty the record of the section is in the result with
  \<open>q\<close> as its \<open>file_path\<close>. The witness is a rename header: the path is the old one.
\<close>

theorem first_header_match_wins:
  assumes "sec = pre @ ''a/'' @ p @ ws @ ''b/'' @ rest" and "ws \<noteq> []"
    and "\<forall>c\<in>set ws. is_space c" and "newline \<notin> set p"
  shows "\<exists>q pre' ws' rest'.
           re_search_a_b sec = Some q \<and> extract_file_path sec = q \<and>
           sec = pre' @ ''a/'' @ q @ ws' @ ''b/'' @ rest' \<and> ws' \<noteq> [] \<and>
           (\<forall>c\<in>set ws'. is_space c) \<and> newline \<notin> set q \<and>
           (length pre' < length pre \<or> (length pre' = length pre \<and> length q \<le> length p)) \<and>
           (sec \<in> set (re_split_marker s) \<and> q \<noteq> [] \<longrightarrow>
              section_record sec \<in> set (parse_diff s) \<and> file_path (section_record sec) = q)"
proof -
  from re_search_a_b_leftmost [OF assms] obtain q pre' ws' rest' where q:
    "re_search_a_b sec = Some q" "sec = pre' @ ''a/'' @ q @ ws' @ ''b/'' @ rest'" "ws' \<noteq> []"
    "\<forall>c\<in>set ws'. is_space c" "newline \<notin> set q"
    "length pre' < length pre \<or> (length pre' = length pre \<and> length q \<le> length p)"
    by blast
  have path: "extract_file_path sec = q"
    using q(1) by (simp add: extract_file_path_def)
  have emit: "sec \<in> set (re_split_marker s) \<and> q \<noteq> [] \<longrightarrow>
      section_record sec \<in> set (parse_diff s) \<and> file_path (section_record sec) = q"
    using path by (auto simp: parse_diff_mem emitted_def section_record_def)
  have "re_search_a_b sec = Some q \<and> extract_file_path sec = q \<and>
      sec = pre' @ ''a/'' @ q @ ws' @ ''b/'' @ rest' \<and> ws' \<noteq> [] \<and>
      (\<forall>c\<in>set ws'. is_space c) \<and> newline \<notin> set q \<and>
      (length pre' < length pre \<or> (length pre' = length pre \<and> length q \<le> length p)) \<and>
      (sec \<in> set (re_split_marker s) \<and> q \<noteq> [] \<longrightarrow>
         section_record sec \<in> set (parse_diff s) \<and> file_path (section_record sec) = q)"
    using q(1) path q(2) q(3) q(4) q(5) q(6) emit by (intro conjI)
  then show ?thesis
    by (intro exI)
qed

theorem first_header_match_wins_witness:
  "rename_diff = ''diff --git '' @ ''a/'' @ ''old.py'' @ '' '' @ ''b/'' @
      (''new.py'' @ [newline] @ ''--- a/old.py'' @ [newline] @ ''+++ b/new.py'') \<and>
   list_all is_space '' '' \<and> newline \<notin> set ''old.py'' \<and>
   extract_file_path rename_diff = ''old.py'' \<and>
   re_search_plus_b rename_diff = Some ''new.py'' \<and>
   (\<exists>q. extract_file_path rename_diff = q \<and> length q \<le> length ''old.py'' \<and>
        file_path (section_record rename_diff) = q \<and>
        section_record rename_diff \<in> set (parse_diff rename_diff))"
proof -
  have d: "rename_diff = ''diff --git '' @ ''a/'' @ ''old.py'' @ '' '' @ ''b/'' @
      (''new.py'' @ [newline] @ ''--- a/old.py'' @ [newline] @ ''+++ b/new.py'')"
    by (simp add: rename_diff_def)
  have w: "\<forall>c\<in>set '' ''. is_space c"
    by (simp add: is_space_def whitespace_chars_def)
  have n: "newline \<notin> set ''old.py''"
    by simp
  have e: "extract_file_path rename_diff = ''old.py''"
    by code_simp
  have m: "re_search_plus_b rename_diff = Some ''new.py''"
    by code_simp
  have sec: "rename_diff \<in> set (re_split_marker rename_diff)"
    by code_simp
  have ne: "'' '' \<noteq> []"
    by simp
  from first_header_match_wins [OF d ne w n, of rename_diff] obtain q where
    imp: "rename_diff \<in> set (re_split_marker rename_diff) \<and> q \<noteq> [] \<longrightarrow>
       section_record rename_diff \<in> set (parse_diff rename_diff) \<and>
       file_path (section_record rename_diff) = q"
    and q: "extract_file_path rename_diff = q"
    by (elim exE conjE)
  from q e have qe: "q = ''old.py''"
    by simp
  then have "q \<noteq> []"
    by simp
  with imp sec have "section_record rename_diff \<in> set (parse_diff rename_diff)"
    "file_path (section_record rename_diff) = q"
    by simp_all
  with q qe have "\<exists>q. extract_file_path rename_diff = q \<and>
        length q \<le> length ''old.py'' \<and>
        file_path (section_record rename_diff) = q \<and>
        section_record rename_diff \<in> set (parse_diff rename_diff)"
    by simp
  moreover have "list_all is_space '' ''"
    using w by (simp only: list_all_iff)
  ultimately show ?thesis
    using d n e m by (intro conjI)
qed

end
